theory Spec2Isabelle
  imports Main "HOL-Library.Word" "HOL-Library.Sublist" "HOL-Library.Char_ord"
    "HOL-Library.List_Lexorder"
begin

unbundle bit_operations_syntax

section \<open>Privileges and operations\<close>

text \<open>
  \<open>Access_Operation\<close> is the enumeration the \<open>switch\<close> of \<open>AddPriv\<close> ranges over.
\<close>

datatype Access_Operation =
    AOP_Any | AOP_Chmod | AOP_Chown | AOP_Create | AOP_Delete | AOP_Insert | AOP_Lock
  | AOP_Mkdir | AOP_Read | AOP_Readdir | AOP_Rename | AOP_Stat | AOP_Update

type_synonym XrdAccPrivs = "32 word"

text \<open>
  The enumerators of \<open>XrdAccPrivs\<close> are declared in a header of the XRootD framework.
  Their numeric values are taken as a parameter: every function below that mentions a
  privilege constant receives this table.
\<close>

record XrdAccPrivs_hh =
  XrdAccPriv_None :: XrdAccPrivs
  XrdAccPriv_Chmod :: XrdAccPrivs
  XrdAccPriv_Chown :: XrdAccPrivs
  XrdAccPriv_Create :: XrdAccPrivs
  XrdAccPriv_Delete :: XrdAccPrivs
  XrdAccPriv_Insert :: XrdAccPrivs
  XrdAccPriv_Lock :: XrdAccPrivs
  XrdAccPriv_Mkdir :: XrdAccPrivs
  XrdAccPriv_Read :: XrdAccPrivs
  XrdAccPriv_Readdir :: XrdAccPrivs
  XrdAccPriv_Rename :: XrdAccPrivs
  XrdAccPriv_Lookup :: XrdAccPrivs
  XrdAccPriv_Update :: XrdAccPrivs

fun AddPriv :: "XrdAccPrivs_hh \<Rightarrow> Access_Operation \<Rightarrow> XrdAccPrivs \<Rightarrow> XrdAccPrivs" where
  "AddPriv P AOP_Any privs = privs"
| "AddPriv P AOP_Chmod privs = privs OR XrdAccPriv_Chmod P"
| "AddPriv P AOP_Chown privs = privs OR XrdAccPriv_Chown P"
| "AddPriv P AOP_Create privs = privs OR XrdAccPriv_Create P"
| "AddPriv P AOP_Delete privs = privs OR XrdAccPriv_Delete P"
| "AddPriv P AOP_Insert privs = privs OR XrdAccPriv_Insert P"
| "AddPriv P AOP_Lock privs = privs OR XrdAccPriv_Lock P"
| "AddPriv P AOP_Mkdir privs = privs OR XrdAccPriv_Mkdir P"
| "AddPriv P AOP_Read privs = privs OR XrdAccPriv_Read P"
| "AddPriv P AOP_Readdir privs = privs OR XrdAccPriv_Readdir P"
| "AddPriv P AOP_Rename privs = privs OR XrdAccPriv_Rename P"
| "AddPriv P AOP_Stat privs = privs OR XrdAccPriv_Lookup P"
| "AddPriv P AOP_Update privs = privs OR XrdAccPriv_Update P"

section \<open>Strings\<close>

text \<open>
  \<open>std::string\<close> is a list of bytes. \<open>substr s pos count\<close> is the substring that
  \<open>compare\<close> and \<open>substr\<close> work on for \<open>pos \<le> size\<close> (the only case the program
  reaches): at most \<open>count\<close> characters from \<open>pos\<close>, clipped at the end of \<open>s\<close>.
  \<open>string_compare\<close> is the three-way comparison of \<open>std::string\<close>, on bytes read as
  unsigned values, the shorter string first when one is a prefix of the other.
\<close>

definition substr :: "string \<Rightarrow> nat \<Rightarrow> nat \<Rightarrow> string" where
  "substr s pos count = take count (drop pos s)"

fun string_compare :: "string \<Rightarrow> string \<Rightarrow> int" where
  "string_compare [] [] = 0"
| "string_compare [] (y # ys) = - 1"
| "string_compare (x # xs) [] = 1"
| "string_compare (x # xs) (y # ys) =
     (if (of_char x :: nat) < of_char y then - 1
      else if (of_char y :: nat) < of_char x then 1
      else string_compare xs ys)"

definition compare :: "string \<Rightarrow> nat \<Rightarrow> nat \<Rightarrow> string \<Rightarrow> nat \<Rightarrow> nat \<Rightarrow> int" where
  "compare s pos1 count1 str pos2 count2 =
     string_compare (substr s pos1 count1) (substr str pos2 count2)"

section \<open>XrdAccRules\<close>

type_synonym AccessRulesRaw = "(Access_Operation \<times> string) list"

record XrdAccRules =
  m_rules :: AccessRulesRaw
  m_expiry_time :: "64 word"
  m_username :: string

text \<open>The constructor leaves \<open>m_rules\<close> empty; \<open>parse\<close> appends the raw rules.\<close>

definition XrdAccRules_new :: "64 word \<Rightarrow> string \<Rightarrow> XrdAccRules" where
  "XrdAccRules_new expiry_time username =
     \<lparr>m_rules = [], m_expiry_time = expiry_time, m_username = username\<rparr>"

fun parse_loop :: "AccessRulesRaw \<Rightarrow> AccessRulesRaw \<Rightarrow> AccessRulesRaw" where
  "parse_loop [] acc = acc"
| "parse_loop (entry # rules) acc = parse_loop rules (acc @ [(fst entry, snd entry)])"

definition parse :: "AccessRulesRaw \<Rightarrow> XrdAccRules \<Rightarrow> XrdAccRules" where
  "parse rules r = r\<lparr>m_rules := parse_loop rules (m_rules r)\<rparr>"

text \<open>
  The loop of \<open>apply\<close>: a rule contributes when the comparison of the first
  \<open>rule.second.size()\<close> bytes of the path with the rule's prefix returns 0.
\<close>

fun apply_loop :: "XrdAccPrivs_hh \<Rightarrow> string \<Rightarrow> AccessRulesRaw \<Rightarrow> XrdAccPrivs \<Rightarrow> XrdAccPrivs" where
  "apply_loop P path [] privs = privs"
| "apply_loop P path (rule # rules) privs =
     apply_loop P path rules
       (if compare path 0 (length (snd rule)) (snd rule) 0 (length (snd rule)) = 0
        then AddPriv P (fst rule) privs
        else privs)"

text \<open>\<open>XrdAccRules::apply\<close>; its first argument, the requested operation, has no name.\<close>

definition apply_rules :: "XrdAccPrivs_hh \<Rightarrow> XrdAccRules \<Rightarrow> Access_Operation \<Rightarrow> string \<Rightarrow> XrdAccPrivs" where
  "apply_rules P r oper path = apply_loop P path (m_rules r) (XrdAccPriv_None P)"

text \<open>
  \<open>expired\<close> reads the clock itself; the reading \<open>t\<close> that \<open>monotonic_time()\<close> returns
  to it is an argument of the model.
\<close>

definition expired :: "64 word \<Rightarrow> XrdAccRules \<Rightarrow> bool" where
  "expired t r = (t > m_expiry_time r)"

definition get_username :: "XrdAccRules \<Rightarrow> string" where
  "get_username r = m_username r"


text \<open>
  \<open>strdup(username.c_str())\<close> copies the bytes before the first NUL of the string.
\<close>

definition c_str :: "string \<Rightarrow> string" where
  "c_str s = takeWhile (\<lambda>c. c \<noteq> CHR 0x00) s"

section \<open>XrdAccSciTokens: state\<close>

text \<open>
  Of \<open>XrdSecEntity\<close> (another framework header) the program touches the field \<open>name\<close>
  only, a C string that may be null. The remaining fields are the extension of the
  record. \<open>XrdOucEnv\<close> is used through \<open>Get\<close> only. The pointers \<open>Entity\<close> and \<open>path\<close>
  are dereferenced without a test and are taken to be non-null; \<open>env\<close> is tested.
\<close>

record XrdSecEntity =
  name :: "string option"

type_synonym XrdOucEnv = "string \<Rightarrow> string option"

type_synonym 'e XrdAccAuthorize =
  "'e XrdSecEntity_scheme \<Rightarrow> string \<Rightarrow> Access_Operation \<Rightarrow> XrdOucEnv option \<Rightarrow> XrdAccPrivs"

text \<open>
  The mutex is modelled by what happens to it: the state carries the sequence of lock
  and map operations executed so far, in program order. A \<open>std::lock_guard\<close> gives
  \<open>Acquire\<close> where it is declared and \<open>Release\<close> where its block ends.
\<close>

datatype map_op = Op_find string | Op_assign string | Op_iterate

datatype event = Acquire | Release | Map_access map_op

text \<open>
  \<open>m_map\<close> is a \<open>std::map\<close>: its entries, in the order of their keys (the order in
  which an iterator visits them).
\<close>

record 'e XrdAccSciTokens =
  m_audiences :: "string list"
  m_map :: "(string \<times> XrdAccRules) list"
  m_chain :: "'e XrdAccAuthorize option"
  m_parms :: string
  m_next_clean :: "64 word"
  trace :: "event list"

definition m_expiry_secs :: "64 word" where
  "m_expiry_secs = 60"

text \<open>\<open>m_map[key] = value\<close>: overwrite the entry of \<open>key\<close>, or insert it at its place.\<close>

fun map_assign :: "string \<Rightarrow> 'v \<Rightarrow> (string \<times> 'v) list \<Rightarrow> (string \<times> 'v) list" where
  "map_assign k v [] = [(k, v)]"
| "map_assign k v ((k', v') # m) =
     (if k = k' then (k, v) # m
      else if k < k' then (k, v) # (k', v') # m
      else (k', v') # map_assign k v m)"

section \<open>The sweep\<close>

text \<open>
  The behaviours of the program that the C++ standard leaves undefined are a value of
  the model.
\<close>

datatype error = Invalidated_iterator

text \<open>
  The loop of \<open>Check\<close> visits the entries in order; \<open>t j\<close> is the clock reading that
  \<open>expired()\<close> obtains at the \<open>j\<close>-th entry. At an expired entry the body calls
  \<open>m_map.erase(iter)\<close>, which invalidates \<open>iter\<close>, and the loop header then evaluates
  \<open>iter++\<close> on that iterator: from there on the program has no defined behaviour.
  A run of the loop that stays defined therefore erases nothing.
\<close>

fun Check_loop :: "(nat \<Rightarrow> 64 word) \<Rightarrow> nat \<Rightarrow> (string \<times> XrdAccRules) list \<Rightarrow> error option" where
  "Check_loop t j [] = None"
| "Check_loop t j (entry # rest) =
     (if expired (t j) (snd entry) then Some Invalidated_iterator
      else Check_loop t (Suc j) rest)"

text \<open>
  \<open>Check\<close> declares no lock guard, and \<open>Access\<close> calls it before its first guarded
  block. \<open>m_next_clean\<close> is not assigned.
\<close>

definition Check :: "(nat \<Rightarrow> 64 word) \<Rightarrow> 64 word \<Rightarrow> 'e XrdAccSciTokens \<Rightarrow> error + 'e XrdAccSciTokens" where
  "Check t now s =
     (if now \<le> m_next_clean s then Inr s
      else (case Check_loop t 0 (m_map s) of
              Some e \<Rightarrow> Inl e
            | None \<Rightarrow> Inr (s\<lparr>trace := trace s @ [Map_access Op_iterate]\<rparr>)))"

section \<open>The decision entry point\<close>

text \<open>
  The validator \<open>GenerateAcls\<close> returns \<open>true\<close> with its three output parameters set,
  returns \<open>false\<close>, or throws. \<open>Access\<close> is modelled for any validator \<open>gen\<close>; the one
  of this repository is \<open>GenerateAcls\<close>.
\<close>

datatype generated = Acls "64 word" AccessRulesRaw string | No_acls | Acls_exception string

definition GenerateAcls :: "string \<Rightarrow> generated" where
  "GenerateAcls authz = No_acls"

text \<open>
  The clock readings of one call of \<open>Access\<close>: \<open>now\<close> is the reading of its own call of
  \<open>monotonic_time()\<close>, \<open>at_sweep j\<close> the one \<open>expired()\<close> makes at the \<open>j\<close>-th entry of
  the sweep, \<open>at_find\<close> the one \<open>expired()\<close> makes on the entry found for the token.
\<close>

record clock =
  now :: "64 word"
  at_sweep :: "nat \<Rightarrow> 64 word"
  at_find :: "64 word"

text \<open>\<open>m_chain ? m_chain->Access(Entity, path, oper, env) : XrdAccPriv_None\<close>\<close>

definition delegate :: "XrdAccPrivs_hh \<Rightarrow> 'e XrdAccAuthorize option \<Rightarrow> 'e XrdSecEntity_scheme \<Rightarrow> string \<Rightarrow>
    Access_Operation \<Rightarrow> XrdOucEnv option \<Rightarrow> XrdAccPrivs" where
  "delegate P chain Entity path oper env =
     (case chain of
        Some authorizer \<Rightarrow> authorizer Entity path oper env
      | None \<Rightarrow> XrdAccPriv_None P)"

text \<open>
  The guarded lookup: \<open>access_rules\<close> after the first block, \<open>None\<close> for the null
  pointer. \<open>expired()\<close> is called on an entry that was found, with the reading \<open>t\<close>.
\<close>

definition cached_rules :: "64 word \<Rightarrow> (string \<times> XrdAccRules) list \<Rightarrow> string \<Rightarrow> XrdAccRules option" where
  "cached_rules t m authz =
     (case map_of m authz of
        Some r \<Rightarrow> if \<not> expired t r then Some r else None
      | None \<Rightarrow> None)"

text \<open>The assignment of the identity: \<open>if (!username.empty() && !Entity->name)\<close>.\<close>

definition assign_name :: "string \<Rightarrow> 'e XrdSecEntity_scheme \<Rightarrow> 'e XrdSecEntity_scheme" where
  "assign_name username Entity =
     (if username \<noteq> [] \<and> name Entity = None
      then Entity\<lparr>name := Some (c_str username)\<rparr>
      else Entity)"

text \<open>
  The end of \<open>Access\<close>, reached with \<open>access_rules\<close> set: the identity is assigned, the
  rules are applied, and the chain is asked when they give the none mask. The chain
  receives the entity after the assignment.
\<close>

definition Access_decide :: "XrdAccPrivs_hh \<Rightarrow> 'e XrdAccAuthorize option \<Rightarrow> XrdAccRules \<Rightarrow>
    'e XrdSecEntity_scheme \<Rightarrow> string \<Rightarrow> Access_Operation \<Rightarrow> XrdOucEnv option \<Rightarrow>
    XrdAccPrivs \<times> 'e XrdSecEntity_scheme" where
  "Access_decide P chain access_rules Entity path oper env =
     (let Entity' = assign_name (get_username access_rules) Entity;
          result = apply_rules P access_rules oper path
      in (if result = XrdAccPriv_None P \<and> chain \<noteq> None
          then the chain Entity' path oper env
          else result,
          Entity'))"

definition env_Get :: "XrdOucEnv option \<Rightarrow> string \<Rightarrow> string option" where
  "env_Get env key = (case env of Some e \<Rightarrow> e key | None \<Rightarrow> None)"

text \<open>
  \<open>Access\<close> returns the privileges, the entity as the call leaves it, and the new state
  of the object.
\<close>

definition Access :: "XrdAccPrivs_hh \<Rightarrow> (string \<Rightarrow> generated) \<Rightarrow> clock \<Rightarrow> 'e XrdSecEntity_scheme \<Rightarrow>
    string \<Rightarrow> Access_Operation \<Rightarrow> XrdOucEnv option \<Rightarrow> 'e XrdAccSciTokens \<Rightarrow>
    error + (XrdAccPrivs \<times> 'e XrdSecEntity_scheme \<times> 'e XrdAccSciTokens)" where
  "Access P gen clk Entity path oper env s =
     (case env_Get env ''authz'' of
        None \<Rightarrow> Inr (delegate P (m_chain s) Entity path oper env, Entity, s)
      | Some authz \<Rightarrow>
          (case Check (at_sweep clk) (now clk) s of
             Inl e \<Rightarrow> Inl e
           | Inr s1 \<Rightarrow>
               (let s2 = s1\<lparr>trace := trace s1 @ [Acquire, Map_access (Op_find authz), Release]\<rparr>
                in (case cached_rules (at_find clk) (m_map s2) authz of
                      Some r \<Rightarrow>
                        (case Access_decide P (m_chain s2) r Entity path oper env of
                           (result, Entity') \<Rightarrow> Inr (result, Entity', s2))
                    | None \<Rightarrow>
                        (case gen authz of
                           Acls cache_expiry rules username \<Rightarrow>
                             (let r = parse rules (XrdAccRules_new (now clk + cache_expiry) username);
                                  s3 = s2\<lparr>m_map := map_assign authz r (m_map s2),
                                          trace := trace s2 @ [Acquire, Map_access (Op_assign authz), Release]\<rparr>
                              in (case Access_decide P (m_chain s3) r Entity path oper env of
                                    (result, Entity') \<Rightarrow> Inr (result, Entity', s3)))
                         | No_acls \<Rightarrow> Inr (delegate P (m_chain s2) Entity path oper env, Entity, s2)
                         | Acls_exception what \<Rightarrow>
                             Inr (delegate P (m_chain s2) Entity path oper env, Entity, s2))))))"

text \<open>
  The rule set that \<open>access_rules\<close> points to when \<open>Access\<close> comes to the assignment of
  the identity, as a function of the inputs: the cached one if the lookup gave one,
  else the one built from the validator's output; \<open>None\<close> where \<open>Access\<close> has returned
  before that line.
\<close>

definition rules_in_use :: "(string \<Rightarrow> generated) \<Rightarrow> clock \<Rightarrow> 'e XrdAccSciTokens \<Rightarrow> string \<Rightarrow>
    XrdAccRules option" where
  "rules_in_use gen clk s authz =
     (case cached_rules (at_find clk) (m_map s) authz of
        Some r \<Rightarrow> Some r
      | None \<Rightarrow>
          (case gen authz of
             Acls cache_expiry rules username \<Rightarrow>
               Some (parse rules (XrdAccRules_new (now clk + cache_expiry) username))
           | No_acls \<Rightarrow> None
           | Acls_exception what \<Rightarrow> None))"

text \<open>
  The lock discipline of a sequence of events: every operation on the map happens
  between an \<open>Acquire\<close> and the next \<open>Release\<close>.
\<close>

fun lock_held_at_map_ops :: "bool \<Rightarrow> event list \<Rightarrow> bool" where
  "lock_held_at_map_ops held [] = True"
| "lock_held_at_map_ops held (Acquire # es) = lock_held_at_map_ops True es"
| "lock_held_at_map_ops held (Release # es) = lock_held_at_map_ops False es"
| "lock_held_at_map_ops held (Map_access op # es) = (held \<and> lock_held_at_map_ops held es)"


text \<open>The host calling \<open>Access\<close> for one request after another, on the same object.\<close>

record 'e request =
  req_clock :: clock
  req_Entity :: "'e XrdSecEntity_scheme"
  req_path :: string
  req_oper :: Access_Operation
  req_env :: "XrdOucEnv option"

fun serve :: "XrdAccPrivs_hh \<Rightarrow> (string \<Rightarrow> generated) \<Rightarrow> 'e request list \<Rightarrow> 'e XrdAccSciTokens \<Rightarrow>
    error + ((XrdAccPrivs \<times> 'e XrdSecEntity_scheme) list \<times> 'e XrdAccSciTokens)" where
  "serve P gen [] s = Inr ([], s)"
| "serve P gen (rq # rqs) s =
     (case Access P gen (req_clock rq) (req_Entity rq) (req_path rq) (req_oper rq) (req_env rq) s of
        Inl e \<Rightarrow> Inl e
      | Inr (result, Entity', s') \<Rightarrow>
          (case serve P gen rqs s' of
             Inl e \<Rightarrow> Inl e
           | Inr (results, s'') \<Rightarrow> Inr ((result, Entity') # results, s'')))"

section \<open>Configuration\<close>

text \<open>
  \<open>INIReader\<close> and \<open>picojson\<close> are libraries the program includes. What the reader
  reports for a file (its parse status, its sections in the order \<open>Sections()\<close> yields
  them, and \<open>Get(section, name, default)\<close>) and what \<open>picojson::parse\<close> returns for a
  text (an error message, empty on success, and the value) are parameters of the model.
\<close>

record INIReader =
  ParseError :: int
  Sections :: "string list"
  Get :: "string \<Rightarrow> string \<Rightarrow> string \<Rightarrow> string"

datatype 'n json =
    Json_null | Json_boolean bool | Json_number 'n | Json_string string
  | Json_array "'n json list" | Json_object "(string \<times> 'n json) list"

text \<open>\<open>std::tolower\<close> on an \<open>unsigned char\<close>, in the C locale.\<close>

definition tolower :: "char \<Rightarrow> char" where
  "tolower c = (if CHR ''A'' \<le> c \<and> c \<le> CHR ''Z'' then char_of (of_char c + (32 :: nat)) else c)"

text \<open>
  The tokenizer of the \<open>audience\<close> value works on positions. \<open>std::string::npos\<close> is
  \<open>None\<close>; \<open>substr_to s pos next_pos\<close> is \<open>s.substr(pos, next_pos - pos)\<close>, whose count
  reaches beyond the end of the string when \<open>next_pos\<close> is \<open>npos\<close>.
\<close>

function skip_separators :: "string \<Rightarrow> nat \<Rightarrow> nat" where
  "skip_separators audience pos =
     (if length audience > pos \<and> (audience ! pos = CHR '','' \<or> audience ! pos = CHR '' '')
      then skip_separators audience (pos + 1)
      else pos)"
  by pat_completeness auto
termination
  by (relation "measure (\<lambda>(audience, pos). length audience - pos)") auto

function find_first_of :: "string \<Rightarrow> string \<Rightarrow> nat \<Rightarrow> nat option" where
  "find_first_of s chars pos =
     (if length s \<le> pos then None
      else if s ! pos \<in> set chars then Some pos
      else find_first_of s chars (pos + 1))"
  by pat_completeness auto
termination
  by (relation "measure (\<lambda>(s, chars, pos). length s - pos)") auto

definition substr_to :: "string \<Rightarrow> nat \<Rightarrow> nat option \<Rightarrow> string" where
  "substr_to s pos next_pos =
     (case next_pos of Some n \<Rightarrow> substr s pos (n - pos) | None \<Rightarrow> drop pos s)"

declare skip_separators.simps [simp del]
declare find_first_of.simps [simp del]

text \<open>
  The loop ends because every pass moves \<open>pos\<close> forward: the position that
  \<open>find_first_of\<close> returns holds a delimiter, and the position it started from, where
  the skipping stopped, does not.
\<close>

function audience_loop :: "string \<Rightarrow> nat \<Rightarrow> string list \<Rightarrow> string list" where
  "audience_loop audience pos audiences =
     (let pos' = skip_separators audience pos;
          next_pos = find_first_of audience '', '' pos';
          next_aud = substr_to audience pos' next_pos;
          audiences' = (if next_aud \<noteq> [] then audiences @ [next_aud] else audiences)
      in case next_pos of
           None \<Rightarrow> audiences'
         | Some p \<Rightarrow> audience_loop audience p audiences')"
  by pat_completeness auto
termination
proof (relation "measure (\<lambda>(audience, pos, audiences). length audience - pos)")
  show "wf (measure (\<lambda>(audience, pos, audiences). length audience - pos))"
    by simp
next
  fix audience pos and audiences audiences' :: "string list" and pos' next_pos next_aud p
  assume pos': "pos' = skip_separators audience pos"
    and next_pos: "next_pos = find_first_of audience '', '' pos'" "next_pos = Some p"
  have skipped: "q \<le> skip_separators a q
      \<and> (skip_separators a q < length a \<longrightarrow>
           a ! skip_separators a q \<noteq> CHR '','' \<and> a ! skip_separators a q \<noteq> CHR '' '')" for a q
  proof (induction a q rule: skip_separators.induct)
    case (1 a q)
    show ?case
    proof (cases "length a > q \<and> (a ! q = CHR '','' \<or> a ! q = CHR '' '')")
      case True
      then have "skip_separators a q = skip_separators a (q + 1)"
        by (subst skip_separators.simps) simp
      with 1 [OF True] show ?thesis by simp
    next
      case False
      then have "skip_separators a q = q"
        by (subst skip_separators.simps) auto
      with False show ?thesis by auto
    qed
  qed
  have found: "find_first_of s chars q = Some r \<longrightarrow> q \<le> r \<and> r < length s \<and> s ! r \<in> set chars"
    for s chars q r
  proof (induction s chars q rule: find_first_of.induct)
    case (1 s chars q)
    show ?case
    proof
      assume some: "find_first_of s chars q = Some r"
      then have lt: "q < length s"
        by (subst (asm) find_first_of.simps) (auto split: if_splits)
      show "q \<le> r \<and> r < length s \<and> s ! r \<in> set chars"
      proof (cases "s ! q \<in> set chars")
        case True
        with lt some have "r = q"
          by (subst (asm) find_first_of.simps) simp
        with lt True show ?thesis by simp
      next
        case False
        with lt some have "find_first_of s chars (q + 1) = Some r"
          by (subst (asm) find_first_of.simps) simp
        with 1 lt False show ?thesis by fastforce
      qed
    qed
  qed
  from found [of audience "'', ''" pos' p] next_pos
  have le: "pos' \<le> p" and lt: "p < length audience" and sep: "audience ! p \<in> set '', ''"
    by simp_all
  from skipped [of pos audience] lt sep have "pos' \<noteq> p"
    unfolding pos' by auto
  with le skipped [of pos audience] lt have "pos < p \<and> p < length audience"
    unfolding pos' by simp
  then show "((audience, p, audiences'), audience, pos, audiences)
      \<in> measure (\<lambda>(audience, pos, audiences). length audience - pos)"
    by (simp add: diff_less_mono2)
qed

declare audience_loop.simps [simp del]

text \<open>The two delimiters of the tokenizer, as a predicate for the statements below.\<close>

definition separator :: "char \<Rightarrow> bool" where
  "separator c = (c = CHR '','' \<or> c = CHR '' '')"

text \<open>The loop over the JSON array: \<open>None\<close> is the \<open>return false\<close> at a non-string value.\<close>

fun json_loop :: "'n json list \<Rightarrow> string list \<Rightarrow> string list option" where
  "json_loop [] audiences = Some audiences"
| "json_loop (Json_string str # vals) audiences = json_loop vals (audiences @ [str])"
| "json_loop (val # vals) audiences = None"

text \<open>The test on the section name: \<open>section_lower.substr(0, 6) == "global"\<close>.\<close>

definition global_section :: "string \<Rightarrow> bool" where
  "global_section section = (substr (map tolower section) 0 6 = ''global'')"

text \<open>The body of the loop over the sections; \<open>None\<close> is \<open>return false\<close>.\<close>

definition Reconfig_section :: "INIReader \<Rightarrow> (string \<Rightarrow> string \<times> 'n json) \<Rightarrow> string \<Rightarrow> string list \<Rightarrow>
    string list option" where
  "Reconfig_section reader picojson_parse section audiences =
     (if global_section section
      then (let audience = Get reader section ''audience'' [];
                audiences1 = (if audience \<noteq> [] then audience_loop audience 0 audiences
                              else audiences);
                audience_json = Get reader section ''audience_json'' []
            in if audience_json \<noteq> []
               then (case picojson_parse audience_json of
                       (err, json_obj) \<Rightarrow>
                         if err \<noteq> [] then None
                         else (case json_obj of
                                 Json_array vals \<Rightarrow> json_loop vals audiences1
                               | _ \<Rightarrow> None))
               else Some audiences1)
      else Some audiences)"

fun sections_loop :: "INIReader \<Rightarrow> (string \<Rightarrow> string \<times> 'n json) \<Rightarrow> string list \<Rightarrow> string list \<Rightarrow>
    string list option" where
  "sections_loop reader picojson_parse [] audiences = Some audiences"
| "sections_loop reader picojson_parse (section # sections) audiences =
     (case Reconfig_section reader picojson_parse section audiences of
        None \<Rightarrow> None
      | Some audiences' \<Rightarrow> sections_loop reader picojson_parse sections audiences')"

text \<open>
  \<open>Reconfig\<close>; \<open>ini\<close> gives the reader that \<open>INIReader reader(m_parms)\<close> constructs for a
  file name. The messages written to the log are not part of the model.
\<close>

definition Reconfig :: "(string \<Rightarrow> INIReader) \<Rightarrow> (string \<Rightarrow> string \<times> 'n json) \<Rightarrow> 'e XrdAccSciTokens \<Rightarrow>
    bool \<times> 'e XrdAccSciTokens" where
  "Reconfig ini picojson_parse s =
     (let reader = ini (m_parms s)
      in if ParseError reader < 0 then (False, s)
         else if ParseError reader \<noteq> 0 then (False, s)
         else (case sections_loop reader picojson_parse (Sections reader) [] of
                 None \<Rightarrow> (False, s)
               | Some audiences \<Rightarrow> (True, s\<lparr>m_audiences := audiences\<rparr>)))"

text \<open>The constructor; \<open>t\<close> is the clock reading in the initialiser of \<open>m_next_clean\<close>.\<close>

definition XrdAccSciTokens_new :: "string option \<Rightarrow> 'e XrdAccAuthorize option \<Rightarrow> 64 word \<Rightarrow>
    (string \<Rightarrow> INIReader) \<Rightarrow> (string \<Rightarrow> string \<times> 'n json) \<Rightarrow> 'e XrdAccSciTokens" where
  "XrdAccSciTokens_new parms chain t ini picojson_parse =
     snd (Reconfig ini picojson_parse
       \<lparr>m_audiences = [], m_map = [], m_chain = chain,
        m_parms = (case parms of Some p \<Rightarrow> p | None \<Rightarrow> []),
        m_next_clean = t + m_expiry_secs, trace = []\<rparr>)"

text \<open>
  The specification's words for the \<open>audience\<close> value: "split into tokens, discarding
  empty fragments", the delimiters being the comma and the space. \<open>spec_fragments\<close> cuts
  the text at every delimiter, \<open>spec_split\<close> drops the empty pieces.
\<close>

fun spec_fragments :: "string \<Rightarrow> string list" where
  "spec_fragments [] = [[]]"
| "spec_fragments (c # cs) =
     (if c = CHR '','' \<or> c = CHR '' '' then [] # spec_fragments cs
      else (case spec_fragments cs of
              f # fs \<Rightarrow> (c # f) # fs
            | [] \<Rightarrow> [[c]]))"

definition spec_split :: "string \<Rightarrow> string list" where
  "spec_split audience = filter (\<lambda>f. f \<noteq> []) (spec_fragments audience)"

text \<open>
  Words for the statements about \<open>Reconfig\<close>. \<open>json_string\<close> is \<open>val.is<std::string>()\<close>
  with \<open>val.get<std::string>()\<close>. An \<open>audience_json\<close> text is in error when it is not
  empty and the parser reports an error, or the value is not an array, or an element of
  the array is not a string; otherwise it contributes the strings of its array. A
  section contributes the tokens of its \<open>audience\<close> value, then the strings of its
  \<open>audience_json\<close> value. A configuration fails when the reader reports a parse status
  other than 0, or a global section has an \<open>audience_json\<close> text in error.
\<close>

fun json_string :: "'n json \<Rightarrow> string option" where
  "json_string (Json_string str) = Some str"
| "json_string val = None"

definition audience_json_error :: "(string \<Rightarrow> string \<times> 'n json) \<Rightarrow> string \<Rightarrow> bool" where
  "audience_json_error picojson_parse text =
     (text \<noteq> [] \<and>
      (fst (picojson_parse text) \<noteq> [] \<or>
       (case snd (picojson_parse text) of
          Json_array vals \<Rightarrow> list_ex (\<lambda>val. json_string val = None) vals
        | _ \<Rightarrow> True)))"

definition audience_json_strings :: "(string \<Rightarrow> string \<times> 'n json) \<Rightarrow> string \<Rightarrow> string list" where
  "audience_json_strings picojson_parse text =
     (if text = [] then []
      else (case snd (picojson_parse text) of
              Json_array vals \<Rightarrow> List.map_filter json_string vals
            | _ \<Rightarrow> []))"

definition section_audiences :: "INIReader \<Rightarrow> (string \<Rightarrow> string \<times> 'n json) \<Rightarrow> string \<Rightarrow> string list" where
  "section_audiences reader picojson_parse section =
     spec_split (Get reader section ''audience'' [])
     @ audience_json_strings picojson_parse (Get reader section ''audience_json'' [])"

definition config_failure :: "INIReader \<Rightarrow> (string \<Rightarrow> string \<times> 'n json) \<Rightarrow> bool" where
  "config_failure reader picojson_parse =
     (ParseError reader < 0 \<or> 0 < ParseError reader \<or>
      list_ex (\<lambda>section. global_section section
                 \<and> audience_json_error picojson_parse (Get reader section ''audience_json'' []))
        (Sections reader))"

section \<open>Concrete inputs\<close>

text \<open>
  Inputs at which the theorems below are instantiated: a table of privilege bits, a
  validator that accepts one token, a chain, a request that carries a token, an object
  made by the constructor from a configuration file that cannot be opened.
\<close>

definition example_privs :: XrdAccPrivs_hh where
  "example_privs =
     \<lparr>XrdAccPriv_None = 0, XrdAccPriv_Chmod = 1, XrdAccPriv_Chown = 2, XrdAccPriv_Create = 4,
      XrdAccPriv_Delete = 8, XrdAccPriv_Insert = 16, XrdAccPriv_Lock = 32, XrdAccPriv_Mkdir = 64,
      XrdAccPriv_Read = 128, XrdAccPriv_Readdir = 256, XrdAccPriv_Rename = 512,
      XrdAccPriv_Lookup = 1024, XrdAccPriv_Update = 2048\<rparr>"

definition example_gen :: "string \<Rightarrow> generated" where
  "example_gen authz =
     (if authz = ''token-a'' then Acls 10 [(AOP_Read, ''/data/'')] ''alice'' else No_acls)"

definition example_chain :: "unit XrdAccAuthorize" where
  "example_chain Entity path oper env = 3"

definition example_env :: "string \<Rightarrow> XrdOucEnv option" where
  "example_env token = Some (\<lambda>key. if key = ''authz'' then Some token else None)"

definition example_clock :: "64 word \<Rightarrow> clock" where
  "example_clock t = \<lparr>now = t, at_sweep = (\<lambda>j. t), at_find = t\<rparr>"

definition example_request :: "64 word \<Rightarrow> string \<Rightarrow> string \<Rightarrow> unit request" where
  "example_request t token path =
     \<lparr>req_clock = example_clock t, req_Entity = \<lparr>name = None\<rparr>, req_path = path,
      req_oper = AOP_Read, req_env = example_env token\<rparr>"

definition example_no_file :: "string \<Rightarrow> INIReader" where
  "example_no_file file = \<lparr>ParseError = - 1, Sections = [], Get = (\<lambda>section key default. default)\<rparr>"

definition example_no_json :: "string \<Rightarrow> string \<times> unit json" where
  "example_no_json text = (''syntax error'', Json_null)"

definition example_object :: "unit XrdAccAuthorize option \<Rightarrow> unit XrdAccSciTokens" where
  "example_object chain = XrdAccSciTokens_new None chain 0 example_no_file example_no_json"

text \<open>
  A configuration file with one section \<open>[Global]\<close> whose keys are given as a list, and
  the values \<open>picojson::parse\<close> gives for the two JSON texts used below.
\<close>

definition example_file :: "(string \<times> string) list \<Rightarrow> string \<Rightarrow> INIReader" where
  "example_file keys file =
     \<lparr>ParseError = 0, Sections = [''Global''],
      Get = (\<lambda>section key default.
               if section = ''Global''
               then (case map_of keys key of Some v \<Rightarrow> v | None \<Rightarrow> default)
               else default)\<rparr>"

definition example_json_xy :: string where
  "example_json_xy = [CHR ''['', CHR 0x22, CHR ''x'', CHR 0x22, CHR '','', CHR 0x22, CHR ''y'', CHR 0x22, CHR '']'']"

definition example_picojson :: "string \<Rightarrow> string \<times> int json" where
  "example_picojson text =
     (if text = example_json_xy then ([], Json_array [Json_string ''x'', Json_string ''y''])
      else if text = ''[1,2]'' then ([], Json_array [Json_number 1, Json_number 2])
      else (''syntax error'', Json_null))"

section \<open>Properties of rule application\<close>

lemma string_compare_eq_0: "string_compare a b = 0 \<longleftrightarrow> a = b"
  by (induction a b rule: string_compare.induct) (auto simp: less_char_def [symmetric])

lemma compare_prefix:
  "compare path 0 (length p) p 0 (length p) = 0 \<longleftrightarrow> prefix p path"
proof -
  have "take (length p) path = p \<longleftrightarrow> prefix p path"
  proof
    assume "take (length p) path = p"
    then have "path = p @ drop (length p) path"
      by (metis append_take_drop_id)
    then show "prefix p path"
      by (rule prefixI)
  next
    assume "prefix p path"
    then show "take (length p) path = p"
      by (auto simp: prefix_def)
  qed
  then show ?thesis
    by (simp add: compare_def substr_def string_compare_eq_0)
qed

lemma AddPriv_OR: "AddPriv P op privs = privs OR AddPriv P op 0"
  by (cases op) simp_all

lemma apply_loop_foldl:
  "apply_loop P path rules privs =
     foldl (OR) privs (map (\<lambda>rule. AddPriv P (fst rule) 0) (filter (\<lambda>rule. prefix (snd rule) path) rules))"
  by (induction rules arbitrary: privs) (simp_all add: compare_prefix AddPriv_OR [symmetric])

text \<open>
  C1. For every rule set, requested operation and path, \<open>apply\<close> returns the bitwise
  union, over the none mask, of the privilege that \<open>AddPriv\<close> maps to the operation of
  every stored rule whose path is a byte-for-byte prefix of the requested path. The
  requested operation has no influence. The rules \<open>(Read, "/data/")\<close> and
  \<open>(Create, "/data/public/")\<close> give the union of Read and Create on
  \<open>/data/public/file.txt\<close> and the none mask on \<open>/other/file.txt\<close>.
\<close>

theorem apply_is_union_of_path_matches:
  "apply_rules P r oper path =
     foldl (OR) (XrdAccPriv_None P)
       (map (\<lambda>rule. AddPriv P (fst rule) 0) (filter (\<lambda>rule. prefix (snd rule) path) (m_rules r)))
   \<and> apply_rules P r oper path = apply_rules P r oper' path
   \<and> apply_rules P \<lparr>m_rules = [(AOP_Read, ''/data/''), (AOP_Create, ''/data/public/'')],
         m_expiry_time = e, m_username = u\<rparr> oper ''/data/public/file.txt''
       = XrdAccPriv_None P OR XrdAccPriv_Read P OR XrdAccPriv_Create P
   \<and> apply_rules P \<lparr>m_rules = [(AOP_Read, ''/data/''), (AOP_Create, ''/data/public/'')],
         m_expiry_time = e, m_username = u\<rparr> oper ''/other/file.txt''
       = XrdAccPriv_None P"
  by (simp add: apply_rules_def apply_loop_foldl or.assoc)

lemma apply_rules_no_match:
  "\<forall>rule\<in>set (m_rules r). \<not> prefix (snd rule) path \<Longrightarrow> apply_rules P r oper path = XrdAccPriv_None P"
  by (simp add: apply_rules_def apply_loop_foldl filter_False)

section \<open>Properties of the sweep\<close>

lemma Check_not_due: "n \<le> m_next_clean s \<Longrightarrow> Check t n s = Inr s"
  by (simp add: Check_def)

lemma Check_Inr:
  assumes "Check t n s = Inr s1"
  shows "m_map s1 = m_map s \<and> m_chain s1 = m_chain s \<and> m_next_clean s1 = m_next_clean s
    \<and> m_audiences s1 = m_audiences s \<and> m_parms s1 = m_parms s"
  using assms by (auto simp: Check_def split: if_splits option.splits)

lemma Check_empty_map:
  "m_map s = [] \<Longrightarrow> \<exists>s1. Check t n s = Inr s1"
  by (simp add: Check_def)

lemma Check_loop_None:
  "Check_loop t j m = None \<longleftrightarrow> (\<forall>i<length m. \<not> expired (t (j + i)) (snd (m ! i)))"
proof (induction m arbitrary: j)
  case Nil
  then show ?case by simp
next
  case (Cons entry m)
  show ?case
    by (auto simp: Cons.IH less_Suc_eq_0_disj)
qed

lemma Check_defined:
  "(\<exists>s1. Check t n s = Inr s1) \<longleftrightarrow>
     n \<le> m_next_clean s \<or> (\<forall>i<length (m_map s). \<not> expired (t i) (snd (m_map s ! i)))"
  using Check_loop_None [of t 0 "m_map s"]
  by (auto simp: Check_def split: option.splits)

section \<open>Properties of decisions\<close>

lemma map_of_map_assign: "map_of (map_assign k v m) = (map_of m)(k \<mapsto> v)"
  by (induction m) (auto simp: fun_eq_iff)

lemma more_assign_name: "XrdSecEntity.more (assign_name u E) = XrdSecEntity.more E"
  by (simp add: assign_name_def)

lemma Access_no_token:
  "env_Get env ''authz'' = None \<Longrightarrow>
     Access P gen clk Entity path oper env s = Inr (delegate P (m_chain s) Entity path oper env, Entity, s)"
  by (simp add: Access_def)

lemma Access_with_rules:
  assumes "env_Get env ''authz'' = Some authz"
    and "Check (at_sweep clk) (now clk) s = Inr s1"
    and "rules_in_use gen clk s authz = Some r"
  shows "\<exists>s'. Access P gen clk Entity path oper env s =
             Inr (fst (Access_decide P (m_chain s) r Entity path oper env),
                  assign_name (get_username r) Entity, s')
           \<and> map_of (m_map s') authz = Some r \<and> m_next_clean s' = m_next_clean s
           \<and> m_chain s' = m_chain s"
  using assms Check_Inr [OF assms(2)]
  by (auto simp: Access_def rules_in_use_def Access_decide_def Let_def map_of_map_assign cached_rules_def
      split: option.splits generated.splits if_splits)

lemma Access_without_rules:
  assumes "env_Get env ''authz'' = Some authz"
    and "Check (at_sweep clk) (now clk) s = Inr s1"
    and "rules_in_use gen clk s authz = None"
  shows "\<exists>s'. Access P gen clk Entity path oper env s =
             Inr (delegate P (m_chain s) Entity path oper env, Entity, s')
           \<and> m_map s' = m_map s \<and> m_next_clean s' = m_next_clean s \<and> m_chain s' = m_chain s"
  using assms Check_Inr [OF assms(2)]
  by (auto simp: Access_def rules_in_use_def Let_def split: option.splits generated.splits)

lemma Access_undefined:
  assumes "env_Get env ''authz'' = Some authz"
    and "Check (at_sweep clk) (now clk) s = Inl e"
  shows "Access P gen clk Entity path oper env s = Inl e"
  using assms by (simp add: Access_def)

lemma Access_keeps_next_clean:
  assumes "Access P gen clk Entity path oper env s = Inr (result, Entity', s')"
  shows "m_next_clean s' = m_next_clean s"
proof (cases "env_Get env ''authz''")
  case None
  with assms show ?thesis
    by (simp add: Access_no_token)
next
  case (Some authz)
  from assms Some obtain s1 where sweep: "Check (at_sweep clk) (now clk) s = Inr s1"
    by (cases "Check (at_sweep clk) (now clk) s") (simp_all add: Access_def)
  show ?thesis
  proof (cases "rules_in_use gen clk s authz")
    case None
    with Access_without_rules [OF Some sweep None, of P Entity path oper] assms
    show ?thesis by auto
  next
    case (Some r)
    with Access_with_rules [OF \<open>env_Get env ''authz'' = Some authz\<close> sweep Some, of P Entity path oper]
      assms
    show ?thesis by auto
  qed
qed

lemmas example_defs =
  example_privs_def example_gen_def example_chain_def example_env_def example_clock_def
  example_request_def example_no_file_def example_no_json_def example_object_def
  XrdAccSciTokens_new_def Reconfig_def m_expiry_secs_def env_Get_def

lemma example_object_eq:
  "example_object chain =
     \<lparr>m_audiences = [], m_map = [], m_chain = chain, m_parms = [], m_next_clean = 60, trace = []\<rparr>"
  by (simp add: example_defs)

lemmas Access_eval =
  Access_def Check_def cached_rules_def Access_decide_def assign_name_def delegate_def
  apply_rules_def compare_def substr_def get_username_def c_str_def parse_def XrdAccRules_new_def
  expired_def GenerateAcls_def Let_def

text \<open>
  \<open>expired\<close> is false for every reading up to the expiry time and true for every later
  one, and the lookup of \<open>Access\<close> hands out a cached rule set only when the reading it
  takes is not beyond the expiry time. When the entry cached for the token is expired
  at that reading and the sweep of the call is defined, \<open>Access\<close> asks the validator:
  with its rules it decides from the fresh rule set and stores that one under the
  token; without them it leaves the decision to the chain.
\<close>

lemma expired_entry_regenerated_while_sweep_defined:
  "(\<forall>t r'. (t \<le> m_expiry_time r') = (\<not> expired t r'))
   \<and> (\<forall>t r'. (m_expiry_time r' < t) = expired t r')
   \<and> (\<forall>t m a r'. cached_rules t m a = Some r' \<longrightarrow> map_of m a = Some r' \<and> t \<le> m_expiry_time r')
   \<and> (env_Get env ''authz'' = Some authz \<and> Check (at_sweep clk) (now clk) s = Inr s1
        \<and> map_of (m_map s) authz = Some r \<and> expired (at_find clk) r \<longrightarrow>
      cached_rules (at_find clk) (m_map s) authz = None
      \<and> (case gen authz of
           Acls cache_expiry rules username \<Rightarrow>
             \<exists>s'. Access P gen clk Entity path oper env s =
                    Inr (fst (Access_decide P (m_chain s)
                           (parse rules (XrdAccRules_new (now clk + cache_expiry) username))
                           Entity path oper env),
                         assign_name username Entity, s')
                \<and> map_of (m_map s') authz =
                    Some (parse rules (XrdAccRules_new (now clk + cache_expiry) username))
         | No_acls \<Rightarrow>
             \<exists>s'. Access P gen clk Entity path oper env s =
                    Inr (delegate P (m_chain s) Entity path oper env, Entity, s')
         | Acls_exception what \<Rightarrow>
             \<exists>s'. Access P gen clk Entity path oper env s =
                    Inr (delegate P (m_chain s) Entity path oper env, Entity, s')))"
proof -
  have strict: "(\<forall>t r'. (t \<le> m_expiry_time r') = (\<not> expired t r'))
      \<and> (\<forall>t r'. (m_expiry_time r' < t) = expired t r')"
    by (auto simp: expired_def)
  have served: "\<forall>t m a r'. cached_rules t m a = Some r' \<longrightarrow> map_of m a = Some r' \<and> t \<le> m_expiry_time r'"
    by (auto simp: cached_rules_def expired_def split: option.splits if_splits)
  have regenerated: "cached_rules (at_find clk) (m_map s) authz = None
      \<and> (case gen authz of
           Acls cache_expiry rules username \<Rightarrow>
             \<exists>s'. Access P gen clk Entity path oper env s =
                    Inr (fst (Access_decide P (m_chain s)
                           (parse rules (XrdAccRules_new (now clk + cache_expiry) username))
                           Entity path oper env),
                         assign_name username Entity, s')
                \<and> map_of (m_map s') authz =
                    Some (parse rules (XrdAccRules_new (now clk + cache_expiry) username))
         | No_acls \<Rightarrow>
             \<exists>s'. Access P gen clk Entity path oper env s =
                    Inr (delegate P (m_chain s) Entity path oper env, Entity, s')
         | Acls_exception what \<Rightarrow>
             \<exists>s'. Access P gen clk Entity path oper env s =
                    Inr (delegate P (m_chain s) Entity path oper env, Entity, s'))"
    if authz: "env_Get env ''authz'' = Some authz"
      and sweep: "Check (at_sweep clk) (now clk) s = Inr s1"
      and cached: "map_of (m_map s) authz = Some r"
      and exp: "expired (at_find clk) r"
  proof -
    from cached exp have miss: "cached_rules (at_find clk) (m_map s) authz = None"
      by (simp add: cached_rules_def)
    show ?thesis
    proof (cases "gen authz")
      case (Acls cache_expiry rules username)
      with miss have "rules_in_use gen clk s authz =
          Some (parse rules (XrdAccRules_new (now clk + cache_expiry) username))"
        by (simp add: rules_in_use_def)
      from Access_with_rules [OF authz sweep this, of P Entity path oper] Acls miss show ?thesis
        by (auto simp: get_username_def parse_def XrdAccRules_new_def)
    next
      case No_acls
      with miss have "rules_in_use gen clk s authz = None"
        by (simp add: rules_in_use_def)
      from Access_without_rules [OF authz sweep this, of P Entity path oper] No_acls miss show ?thesis
        by auto
    next
      case (Acls_exception what)
      with miss have "rules_in_use gen clk s authz = None"
        by (simp add: rules_in_use_def)
      from Access_without_rules [OF authz sweep this, of P Entity path oper] Acls_exception miss
      show ?thesis
        by auto
    qed
  qed
  with strict served show ?thesis
    by blast
qed

text \<open>
  C6. A call of \<open>Access\<close> that carries a token, whose sweep is defined, and whose rule
  set (cached or fresh) gives the none mask on the path, in particular one none of whose
  rules has a prefix of the path, returns the result of the chain for the same path,
  operation and environment and for the entity as the assignment of the identity left
  it; without a chain it returns the none mask.
\<close>

theorem none_mask_defers_to_chain:
  assumes authz: "env_Get env ''authz'' = Some authz"
    and sweep: "Check (at_sweep clk) (now clk) s = Inr s1"
    and rules: "rules_in_use gen clk s authz = Some r"
    and none: "apply_rules P r oper path = XrdAccPriv_None P
               \<or> (\<forall>rule\<in>set (m_rules r). \<not> prefix (snd rule) path)"
  shows "\<exists>s'. Access P gen clk Entity path oper env s =
      Inr (case m_chain s of
             Some chain \<Rightarrow> chain (assign_name (get_username r) Entity) path oper env
           | None \<Rightarrow> XrdAccPriv_None P,
           assign_name (get_username r) Entity, s')"
proof -
  from none have "apply_rules P r oper path = XrdAccPriv_None P"
    using apply_rules_no_match by blast
  then have "fst (Access_decide P (m_chain s) r Entity path oper env) =
      (case m_chain s of
         Some chain \<Rightarrow> chain (assign_name (get_username r) Entity) path oper env
       | None \<Rightarrow> XrdAccPriv_None P)"
    by (simp add: Access_decide_def Let_def split: option.splits)
  with Access_with_rules [OF authz sweep rules, of P Entity path oper] show ?thesis
    by auto
qed

theorem none_mask_defers_to_chain_witness:
  "env_Get (example_env ''token-a'') ''authz'' = Some ''token-a''
   \<and> Check (at_sweep (example_clock 1)) (now (example_clock 1)) (example_object (Some example_chain))
       = Inr (example_object (Some example_chain))
   \<and> rules_in_use example_gen (example_clock 1) (example_object (Some example_chain)) ''token-a''
       = Some \<lparr>m_rules = [(AOP_Read, ''/data/'')], m_expiry_time = 11, m_username = ''alice''\<rparr>
   \<and> apply_rules example_privs
         \<lparr>m_rules = [(AOP_Read, ''/data/'')], m_expiry_time = 11, m_username = ''alice''\<rparr>
         AOP_Read ''/other/file.txt'' = XrdAccPriv_None example_privs
   \<and> (\<exists>s'. Access example_privs example_gen (example_clock 1) \<lparr>name = None\<rparr> ''/other/file.txt''
              AOP_Read (example_env ''token-a'') (example_object (Some example_chain))
            = Inr (3, \<lparr>name = Some ''alice''\<rparr>, s'))"
proof -
  let ?r = "\<lparr>m_rules = [(AOP_Read, ''/data/'')], m_expiry_time = 11, m_username = ''alice''\<rparr>"
  have h1: "env_Get (example_env ''token-a'') ''authz'' = Some ''token-a''"
    by (simp add: example_defs)
  have h2: "Check (at_sweep (example_clock 1)) (now (example_clock 1)) (example_object (Some example_chain))
       = Inr (example_object (Some example_chain))"
    by (simp add: example_object_eq Check_def example_clock_def)
  have h3: "rules_in_use example_gen (example_clock 1) (example_object (Some example_chain)) ''token-a''
       = Some ?r"
    by (simp add: example_object_eq rules_in_use_def cached_rules_def example_gen_def example_clock_def
        parse_def XrdAccRules_new_def)
  have h4: "apply_rules example_privs ?r AOP_Read ''/other/file.txt'' = XrdAccPriv_None example_privs"
    by (simp add: apply_rules_def compare_def substr_def example_privs_def)
  from none_mask_defers_to_chain [OF h1 h2 h3 disjI1 [OF h4], of "\<lparr>name = None\<rparr>"]
  have "\<exists>s'. Access example_privs example_gen (example_clock 1) \<lparr>name = None\<rparr> ''/other/file.txt''
              AOP_Read (example_env ''token-a'') (example_object (Some example_chain))
            = Inr (3, \<lparr>name = Some ''alice''\<rparr>, s')"
    by (simp add: example_object_eq assign_name_def get_username_def c_str_def example_chain_def)
  with h1 h2 h3 h4 show ?thesis
    by blast
qed

text \<open>
  C9. A call of \<open>Access\<close> that returns leaves every field of the entity but \<open>name\<close> as
  it was. It assigns \<open>name\<close> exactly when the call has a token and a rule set in use,
  the identity of the rule set is not empty and the entity has no name yet; the name is
  then the identity, copied as a C string (all of it when it holds no NUL byte).
\<close>

theorem only_the_name_is_assigned:
  assumes "Access P gen clk Entity path oper env s = Inr (result, Entity', s')"
  shows "Entity' =
      (case env_Get env ''authz'' of
         None \<Rightarrow> Entity
       | Some authz \<Rightarrow>
           (case rules_in_use gen clk s authz of
              None \<Rightarrow> Entity
            | Some r \<Rightarrow>
                if get_username r \<noteq> [] \<and> name Entity = None
                then Entity\<lparr>name := Some (c_str (get_username r))\<rparr>
                else Entity))
    \<and> XrdSecEntity.more Entity' = XrdSecEntity.more Entity
    \<and> (CHR 0x00 \<notin> set (get_username r') \<longrightarrow> c_str (get_username r') = get_username r')"
proof -
  have nul: "CHR 0x00 \<notin> set (get_username r') \<longrightarrow> c_str (get_username r') = get_username r'"
    by (auto simp: c_str_def takeWhile_eq_all_conv)
  show ?thesis
  proof (cases "env_Get env ''authz''")
    case None
    with assms nul show ?thesis
      by (simp add: Access_no_token)
  next
    case (Some authz)
    from assms Some obtain s1 where sweep: "Check (at_sweep clk) (now clk) s = Inr s1"
      by (cases "Check (at_sweep clk) (now clk) s") (simp_all add: Access_def)
    show ?thesis
    proof (cases "rules_in_use gen clk s authz")
      case None
      with Access_without_rules [OF Some sweep None, of P Entity path oper] assms Some nul
      show ?thesis by auto
    next
      case (Some r)
      with Access_with_rules [OF \<open>env_Get env ''authz'' = Some authz\<close> sweep Some, of P Entity path oper]
        assms \<open>env_Get env ''authz'' = Some authz\<close> nul
      show ?thesis by (auto simp: assign_name_def)
    qed
  qed
qed

theorem only_the_name_is_assigned_witness:
  "Access example_privs example_gen (example_clock 1) \<lparr>name = None\<rparr> ''/data/x'' AOP_Read
       (example_env ''token-a'') (example_object (Some example_chain))
     = Inr (128, \<lparr>name = Some ''alice''\<rparr>,
            \<lparr>m_audiences = [],
             m_map = [(''token-a'',
                       \<lparr>m_rules = [(AOP_Read, ''/data/'')], m_expiry_time = 11, m_username = ''alice''\<rparr>)],
             m_chain = Some example_chain, m_parms = [], m_next_clean = 60,
             trace = [Acquire, Map_access (Op_find ''token-a''), Release,
                      Acquire, Map_access (Op_assign ''token-a''), Release]\<rparr>)
   \<and> rules_in_use example_gen (example_clock 1) (example_object (Some example_chain)) ''token-a''
       = Some \<lparr>m_rules = [(AOP_Read, ''/data/'')], m_expiry_time = 11, m_username = ''alice''\<rparr>
   \<and> c_str ''alice'' = ''alice''"
proof -
  let ?r = "\<lparr>m_rules = [(AOP_Read, ''/data/'')], m_expiry_time = 11, m_username = ''alice''\<rparr>"
  let ?s' = "\<lparr>m_audiences = [], m_map = [(''token-a'', ?r)],
             m_chain = Some example_chain, m_parms = [], m_next_clean = 60,
             trace = [Acquire, Map_access (Op_find ''token-a''), Release,
                      Acquire, Map_access (Op_assign ''token-a''), Release]\<rparr>"
  have run: "Access example_privs example_gen (example_clock 1) \<lparr>name = None\<rparr> ''/data/x'' AOP_Read
       (example_env ''token-a'') (example_object (Some example_chain))
     = Inr (128, \<lparr>name = Some ''alice''\<rparr>, ?s')"
    by (simp add: example_object_eq Access_eval example_env_def example_clock_def example_gen_def
        example_privs_def env_Get_def)
  have used: "rules_in_use example_gen (example_clock 1) (example_object (Some example_chain)) ''token-a''
       = Some ?r"
    by (simp add: example_object_eq rules_in_use_def cached_rules_def example_gen_def example_clock_def
        parse_def XrdAccRules_new_def)
  from only_the_name_is_assigned [OF run, of ?r] used
  have "c_str ''alice'' = ''alice''"
    by (simp add: get_username_def)
  with run used show ?thesis
    by blast
qed

section \<open>Decisions with the validator of this repository\<close>

lemma Reconfig_keeps:
  "m_map (snd (Reconfig ini pj s)) = m_map s \<and> m_chain (snd (Reconfig ini pj s)) = m_chain s
   \<and> m_next_clean (snd (Reconfig ini pj s)) = m_next_clean s \<and> trace (snd (Reconfig ini pj s)) = trace s"
  by (simp add: Reconfig_def Let_def split: option.splits)

lemma XrdAccSciTokens_new_fields:
  "m_map (XrdAccSciTokens_new parms chain t ini pj) = []
   \<and> m_chain (XrdAccSciTokens_new parms chain t ini pj) = chain
   \<and> m_next_clean (XrdAccSciTokens_new parms chain t ini pj) = t + 60
   \<and> trace (XrdAccSciTokens_new parms chain t ini pj) = []"
  by (simp add: XrdAccSciTokens_new_def Reconfig_keeps m_expiry_secs_def)

lemma Access_stub_empty_map:
  assumes "m_map s = []"
  shows "\<exists>s'. Access P GenerateAcls clk Entity path oper env s =
             Inr (delegate P (m_chain s) Entity path oper env, Entity, s')
           \<and> m_map s' = [] \<and> m_chain s' = m_chain s"
proof (cases "env_Get env ''authz''")
  case None
  with assms show ?thesis
    by (simp add: Access_no_token)
next
  case (Some authz)
  from assms obtain s1 where "Check (at_sweep clk) (now clk) s = Inr s1"
    using Check_empty_map by blast
  moreover from assms have "rules_in_use GenerateAcls clk s authz = None"
    by (simp add: rules_in_use_def cached_rules_def GenerateAcls_def)
  ultimately show ?thesis
    using Access_without_rules [OF Some, of clk s s1 GenerateAcls P Entity path oper] assms
    by auto
qed

lemma serve_stub_empty_map:
  assumes "m_map s = []"
  shows "\<exists>s'. serve P GenerateAcls rqs s =
             Inr (map (\<lambda>rq. (delegate P (m_chain s) (req_Entity rq) (req_path rq) (req_oper rq) (req_env rq),
                             req_Entity rq)) rqs, s')
           \<and> m_map s' = []"
  using assms
proof (induction rqs arbitrary: s)
  case Nil
  then show ?case by simp
next
  case (Cons rq rqs)
  from Access_stub_empty_map [OF Cons.prems]
  obtain s1 where step: "Access P GenerateAcls (req_clock rq) (req_Entity rq) (req_path rq) (req_oper rq)
        (req_env rq) s =
      Inr (delegate P (m_chain s) (req_Entity rq) (req_path rq) (req_oper rq) (req_env rq), req_Entity rq, s1)"
    and s1: "m_map s1 = []" "m_chain s1 = m_chain s"
    by blast
  from Cons.IH [OF s1(1)] s1(2) step show ?case
    by auto
qed

text \<open>
  C10. The validator of this repository, \<open>GenerateAcls\<close>, returns \<open>false\<close> for every
  token. An object made by the constructor then answers every sequence of requests,
  with or without a token, with what the chain answers for each request (the none mask
  when there is no chain), returns every entity as it received it, and has an empty
  cache map afterwards.
\<close>

theorem stub_validator_leaves_all_to_chain:
  "\<exists>s'. serve P GenerateAcls rqs (XrdAccSciTokens_new parms chain t ini picojson_parse) =
          Inr (map (\<lambda>rq. (case chain of
                             Some authorizer \<Rightarrow> authorizer (req_Entity rq) (req_path rq) (req_oper rq) (req_env rq)
                           | None \<Rightarrow> XrdAccPriv_None P,
                           req_Entity rq)) rqs, s')
        \<and> m_map s' = []"
  using serve_stub_empty_map [of "XrdAccSciTokens_new parms chain t ini picojson_parse" P rqs]
  by (simp add: XrdAccSciTokens_new_fields delegate_def)

section \<open>Where the sweep departs from its description\<close>

text \<open>
  C2. The claim is that a call which sweeps puts the next sweep 60 seconds later, so
  that two sweeps are never less than an interval apart. \<open>Check\<close> tests \<open>m_next_clean\<close>
  and never assigns it: no call of \<open>Access\<close> changes it (\<open>Access_keeps_next_clean\<close>).
  Here the constructor runs at time 0 and sets \<open>m_next_clean\<close> to 60; the calls at
  times 61 and 62 both run the sweep (each leaves its iteration in the trace), and
  \<open>m_next_clean\<close> is 60 afterwards.
\<close>

theorem sweep_runs_on_every_later_call:
  "serve example_privs GenerateAcls
       [example_request 61 ''token-a'' ''/data/x'', example_request 62 ''token-a'' ''/data/x'']
       (example_object None)
     = Inr ([(0, \<lparr>name = None\<rparr>), (0, \<lparr>name = None\<rparr>)],
            \<lparr>m_audiences = [], m_map = [], m_chain = None, m_parms = [], m_next_clean = 60,
             trace = [Map_access Op_iterate, Acquire, Map_access (Op_find ''token-a''), Release,
                      Map_access Op_iterate, Acquire, Map_access (Op_find ''token-a''), Release]\<rparr>)"
  by (simp add: example_object_eq example_request_def Access_eval example_env_def example_clock_def
      example_privs_def env_Get_def)

text \<open>
  C3. The claim is that every operation on the map, the pass of the sweep included,
  happens under the lock. The lookup and the assignment do; the sweep does not. In the
  call below, made when a sweep is due, the iteration over the map comes before the
  first \<open>Acquire\<close>: the trace of the call breaks the lock discipline, and without its
  first event it keeps it.
\<close>

theorem sweep_touches_map_without_lock:
  "Access example_privs GenerateAcls (example_clock 61) \<lparr>name = None\<rparr> ''/data/x'' AOP_Read
       (example_env ''token-a'') (example_object None)
     = Inr (0, \<lparr>name = None\<rparr>,
            \<lparr>m_audiences = [], m_map = [], m_chain = None, m_parms = [], m_next_clean = 60,
             trace = [Map_access Op_iterate, Acquire, Map_access (Op_find ''token-a''), Release]\<rparr>)
   \<and> \<not> lock_held_at_map_ops False
         [Map_access Op_iterate, Acquire, Map_access (Op_find ''token-a''), Release]
   \<and> lock_held_at_map_ops False [Acquire, Map_access (Op_find ''token-a''), Release]"
  by (simp add: example_object_eq Access_eval example_env_def example_clock_def
      example_privs_def env_Get_def)

text \<open>
  C4. The claim is that a sweep which is due removes the expired entries, and only
  those, and the call goes on. A sweep is defined exactly when it meets no expired
  entry (\<open>Check_defined\<close>). Here a first call at time 1 caches a rule set that expires
  at time 11. The next call, at time 61, is past \<open>m_next_clean\<close>; its sweep finds the
  entry expired, erases it and increments the erased iterator: the call has no defined
  behaviour.
\<close>

theorem sweep_of_expired_entry_is_undefined:
  "serve example_privs example_gen [example_request 1 ''token-a'' ''/data/x''] (example_object None)
     = Inr ([(128, \<lparr>name = Some ''alice''\<rparr>)],
            \<lparr>m_audiences = [],
             m_map = [(''token-a'',
                       \<lparr>m_rules = [(AOP_Read, ''/data/'')], m_expiry_time = 11, m_username = ''alice''\<rparr>)],
             m_chain = None, m_parms = [], m_next_clean = 60,
             trace = [Acquire, Map_access (Op_find ''token-a''), Release,
                      Acquire, Map_access (Op_assign ''token-a''), Release]\<rparr>)
   \<and> serve example_privs example_gen
       [example_request 1 ''token-a'' ''/data/x'', example_request 61 ''token-b'' ''/data/x'']
       (example_object None)
     = Inl Invalidated_iterator"
  by (simp add: example_object_eq example_request_def Access_eval example_env_def example_clock_def
      example_privs_def example_gen_def env_Get_def)

text \<open>
  C5. The claim is that an expired entry is never served and that the next use of its
  token regenerates it through the validator. The first half holds: \<open>expired\<close> is
  strict and the lookup hands out only entries that are not expired
  (\<open>expired_entry_regenerated_while_sweep_defined\<close>). The second half holds only until
  the first sweep is due. A call at time 1 caches a rule set for the token that expires
  at time 11. Its next use at time 20, before \<open>m_next_clean\<close>, asks the validator again
  and stores a rule set that expires at time 30. Its next use at time 61 instead, past
  \<open>m_next_clean\<close>, runs the sweep first, which meets the expired entry: the call has no
  defined behaviour, and nothing is regenerated.
\<close>

theorem expired_entry_next_use_after_interval_is_undefined:
  "serve example_privs example_gen
       [example_request 1 ''token-a'' ''/data/x'', example_request 20 ''token-a'' ''/data/x'']
       (example_object None)
     = Inr ([(128, \<lparr>name = Some ''alice''\<rparr>), (128, \<lparr>name = Some ''alice''\<rparr>)],
            \<lparr>m_audiences = [],
             m_map = [(''token-a'',
                       \<lparr>m_rules = [(AOP_Read, ''/data/'')], m_expiry_time = 30, m_username = ''alice''\<rparr>)],
             m_chain = None, m_parms = [], m_next_clean = 60,
             trace = [Acquire, Map_access (Op_find ''token-a''), Release,
                      Acquire, Map_access (Op_assign ''token-a''), Release,
                      Acquire, Map_access (Op_find ''token-a''), Release,
                      Acquire, Map_access (Op_assign ''token-a''), Release]\<rparr>)
   \<and> serve example_privs example_gen
       [example_request 1 ''token-a'' ''/data/x'', example_request 61 ''token-a'' ''/data/x'']
       (example_object None)
     = Inl Invalidated_iterator"
  by (simp add: example_object_eq example_request_def Access_eval example_env_def example_clock_def
      example_privs_def example_gen_def env_Get_def)

section \<open>Configuration: the tokenizer splits as specified\<close>

lemma spec_fragments_not_Nil: "spec_fragments s \<noteq> []"
  by (induction s) (auto split: list.splits)

lemma spec_split_Nil: "spec_split [] = []"
  by (simp add: spec_split_def)

lemma spec_split_separator: "separator c \<Longrightarrow> spec_split (c # cs) = spec_split cs"
  by (auto simp: spec_split_def separator_def)

lemma spec_split_separators:
  "spec_split s = spec_split (dropWhile separator s)"
  by (induction s) (simp_all add: spec_split_separator)

lemma spec_fragments_word:
  "\<forall>c\<in>set w. \<not> separator c \<Longrightarrow>
     spec_fragments (w @ rest) = (w @ hd (spec_fragments rest)) # tl (spec_fragments rest)"
proof (induction w)
  case Nil
  then show ?case using spec_fragments_not_Nil [of rest] by simp
next
  case (Cons c w)
  then show ?case by (simp add: separator_def)
qed

lemma spec_split_word:
  assumes "\<forall>c\<in>set w. \<not> separator c" and "rest = [] \<or> separator (hd rest)"
  shows "spec_split (w @ rest) = (if w = [] then [] else [w]) @ spec_split rest"
proof (cases rest)
  case Nil
  with spec_fragments_word [OF assms(1), of "[]"] show ?thesis
    by (simp add: spec_split_def)
next
  case (Cons d rest')
  with assms(2) have "separator d" by simp
  with Cons spec_fragments_word [OF assms(1), of rest] show ?thesis
    by (auto simp: spec_split_def separator_def)
qed

lemma skip_separators_eq:
  "pos \<le> length a \<Longrightarrow> skip_separators a pos = pos + length (takeWhile separator (drop pos a))"
proof (induction a pos rule: skip_separators.induct)
  case (1 audience pos)
  show ?case
  proof (cases "pos < length audience")
    case False
    with 1(2) show ?thesis
      by (subst skip_separators.simps) simp
  next
    case True
    then have d: "drop pos audience = audience ! pos # drop (Suc pos) audience"
      by (simp add: Cons_nth_drop_Suc)
    show ?thesis
    proof (cases "separator (audience ! pos)")
      case sep: True
      with True have "skip_separators audience pos = skip_separators audience (pos + 1)"
        by (subst skip_separators.simps) (simp add: separator_def)
      with 1(1) True sep d show ?thesis
        by (simp add: separator_def)
    next
      case False
      with True have "skip_separators audience pos = pos"
        by (subst skip_separators.simps) (simp add: separator_def)
      with False d show ?thesis by simp
    qed
  qed
qed

lemma find_first_of_eq:
  "pos \<le> length a \<Longrightarrow>
     find_first_of a '', '' pos =
       (if dropWhile (\<lambda>c. \<not> separator c) (drop pos a) = [] then None
        else Some (pos + length (takeWhile (\<lambda>c. \<not> separator c) (drop pos a))))"
proof (induction a "'', ''" pos rule: find_first_of.induct)
  case (1 s pos)
  show ?case
  proof (cases "pos < length s")
    case False
    with 1(2) show ?thesis
      by (subst find_first_of.simps) simp
  next
    case True
    then have d: "drop pos s = s ! pos # drop (Suc pos) s"
      by (simp add: Cons_nth_drop_Suc)
    show ?thesis
    proof (cases "separator (s ! pos)")
      case sep: True
      with True have "find_first_of s '', '' pos = Some pos"
        by (subst find_first_of.simps) (auto simp: separator_def)
      with sep d show ?thesis by simp
    next
      case False
      with True have "find_first_of s '', '' pos = find_first_of s '', '' (pos + 1)"
        by (subst find_first_of.simps) (auto simp: separator_def)
      with 1(1) True False d show ?thesis
        by (simp add: separator_def)
    qed
  qed
qed

lemma audience_loop_spec:
  "pos \<le> length a \<Longrightarrow> audience_loop a pos acc = acc @ spec_split (drop pos a)"
proof (induction a pos acc rule: audience_loop.induct)
  case (1 audience pos audiences)
  let ?s = "drop pos audience"
  let ?pos' = "skip_separators audience pos"
  let ?s' = "dropWhile separator ?s"
  let ?w = "takeWhile (\<lambda>c. \<not> separator c) ?s'"
  let ?rest = "dropWhile (\<lambda>c. \<not> separator c) ?s'"
  let ?acc' = "audiences @ (if ?w = [] then [] else [?w])"
  have pos': "?pos' = pos + length (takeWhile separator ?s)"
    using 1(2) by (rule skip_separators_eq)
  have "length (takeWhile separator ?s) \<le> length ?s"
    by (rule length_takeWhile_le)
  with pos' 1(2) have le: "?pos' \<le> length audience"
    by simp
  have s': "drop ?pos' audience = ?s'"
    by (simp add: pos' add.commute [of pos] drop_drop [symmetric] dropWhile_eq_drop del: drop_drop)
  have next_pos: "find_first_of audience '', '' ?pos' =
      (if ?rest = [] then None else Some (?pos' + length ?w))"
    using find_first_of_eq [OF le] by (simp add: s')
  have word: "\<forall>c\<in>set ?w. \<not> separator c"
    by (auto dest: set_takeWhileD)
  have rest: "?rest = [] \<or> separator (hd ?rest)"
    using hd_dropWhile [of "\<lambda>c. \<not> separator c" ?s'] by auto
  have split: "spec_split ?s = (if ?w = [] then [] else [?w]) @ spec_split ?rest"
    using spec_split_word [OF word rest] spec_split_separators [of ?s] by simp
  show ?case
  proof (cases "?rest = []")
    case True
    then have "\<forall>c\<in>set ?s'. \<not> separator c"
      by (simp only: dropWhile_eq_Nil_conv)
    then have weq: "?w = ?s'"
      by (simp only: takeWhile_eq_all_conv)
    have "substr_to audience ?pos' None = ?s'"
      by (simp add: substr_to_def s')
    with next_pos have "audience_loop audience pos audiences =
        audiences @ (if ?s' = [] then [] else [?s'])"
      unfolding True weq by (simp add: audience_loop.simps [of audience pos audiences] Let_def)
    moreover have "spec_split ?s = (if ?s' = [] then [] else [?s'])"
      using split unfolding True weq by (simp add: spec_split_Nil)
    ultimately show ?thesis
      by simp
  next
    case False
    let ?p = "?pos' + length ?w"
    have sub: "substr_to audience ?pos' (Some ?p) = ?w"
      by (simp add: substr_to_def substr_def s' takeWhile_eq_take [symmetric])
    from False next_pos have np: "find_first_of audience '', '' ?pos' = Some ?p"
      by (simp only: if_False)
    have acc: "(if ?w \<noteq> [] then audiences @ [?w] else audiences) = ?acc'"
      by simp
    have step: "audience_loop audience pos audiences = audience_loop audience ?p ?acc'"
      by (simp add: audience_loop.simps [of audience pos audiences] Let_def np sub)
    have drop_p: "drop ?p audience = ?rest"
      by (simp add: add.commute [of ?pos'] drop_drop [symmetric] s' dropWhile_eq_drop del: drop_drop)
    from False have "?p \<le> length audience"
      using drop_p by (metis drop_all linorder_le_cases)
    from 1(1) [OF refl refl refl refl np this]
    have "audience_loop audience ?p ?acc' = ?acc' @ spec_split (drop ?p audience)"
      unfolding np sub acc .
    with step split drop_p show ?thesis
      by simp
  qed
qed

section \<open>Configuration: what Reconfig installs\<close>

lemma json_loop_spec:
  "json_loop vals acc =
     (if list_ex (\<lambda>val. json_string val = None) vals then None
      else Some (acc @ List.map_filter json_string vals))"
  by (induction vals acc rule: json_loop.induct) (simp_all add: List.map_filter_simps)

lemma Reconfig_section_spec:
  "Reconfig_section reader pj section acc =
     (if global_section section
      then (if audience_json_error pj (Get reader section ''audience_json'' []) then None
            else Some (acc @ section_audiences reader pj section))
      else Some acc)"
  by (auto simp: Reconfig_section_def Let_def audience_json_error_def section_audiences_def
      audience_json_strings_def audience_loop_spec json_loop_spec spec_split_Nil
      split: prod.splits json.splits)

lemma sections_loop_spec:
  "sections_loop reader pj sections acc =
     (if list_ex (\<lambda>section. global_section section
                    \<and> audience_json_error pj (Get reader section ''audience_json'' [])) sections
      then None
      else Some (acc @ concat (map (section_audiences reader pj) (filter global_section sections))))"
  by (induction sections arbitrary: acc) (simp_all add: Reconfig_section_spec)

lemma Reconfig_spec:
  "Reconfig ini pj s =
     (if config_failure (ini (m_parms s)) pj then (False, s)
      else (True, s\<lparr>m_audiences :=
              concat (map (section_audiences (ini (m_parms s)) pj)
                (filter global_section (Sections (ini (m_parms s)))))\<rparr>))"
  by (auto simp: Reconfig_def Let_def config_failure_def sections_loop_spec)

lemma global_section_prefix:
  "global_section section \<longleftrightarrow> prefix ''global'' (map tolower section)"
proof -
  have "take 6 xs = ''global'' \<longleftrightarrow> prefix ''global'' xs" for xs :: string
  proof
    assume "take 6 xs = ''global''"
    then have "xs = ''global'' @ drop 6 xs"
      by (metis append_take_drop_id)
    then show "prefix ''global'' xs"
      by (rule prefixI)
  next
    assume "prefix ''global'' xs"
    then show "take 6 xs = ''global''"
      by (auto simp: prefix_def)
  qed
  then show ?thesis
    by (simp add: global_section_def substr_def)
qed

lemma global_section_Global: "global_section ''Global''"
proof -
  have "char_of (103 :: nat) = CHR ''g''"
    by (simp add: char_of_eq_iff)
  then show ?thesis
    by (simp add: global_section_def substr_def tolower_def less_eq_char_def)
qed

lemma example_split: "spec_split ''alice, bob carol'' = [''alice'', ''bob'', ''carol'']"
  by (simp add: spec_split_def)

lemma example_json_xy_neq: "example_json_xy \<noteq> ''[1,2]'' \<and> example_json_xy \<noteq> [] "
  by (simp add: example_json_xy_def)

text \<open>
  C7. Reconfiguration is atomic. On every configuration failure (the reader reports a
  file that cannot be opened or a parse error; in a global section a non-empty
  \<open>audience_json\<close> text does not parse, is not an array, or has an element that is not a
  string) \<open>Reconfig\<close> returns \<open>false\<close> and leaves the object, and so its audience list,
  as it was. Without such a failure it returns \<open>true\<close>; whenever it returns \<open>false\<close> the
  object is unchanged, so a new list is installed only by a call that succeeds.
\<close>

theorem Reconfig_is_atomic:
  "(config_failure (ini (m_parms s)) pj \<longrightarrow> Reconfig ini pj s = (False, s))
   \<and> (\<not> config_failure (ini (m_parms s)) pj \<longrightarrow> fst (Reconfig ini pj s))
   \<and> (\<not> fst (Reconfig ini pj s) \<longrightarrow> snd (Reconfig ini pj s) = s)
   \<and> (ParseError (ini (m_parms s)) \<noteq> 0 \<longrightarrow> Reconfig ini pj s = (False, s))
   \<and> (section \<in> set (Sections (ini (m_parms s))) \<and> global_section section
        \<and> Get (ini (m_parms s)) section ''audience_json'' [] = text \<and> text \<noteq> []
        \<and> (fst (pj text) \<noteq> []
            \<or> (\<forall>vals. snd (pj text) \<noteq> Json_array vals)
            \<or> (\<exists>vals val. snd (pj text) = Json_array vals \<and> val \<in> set vals \<and> json_string val = None))
      \<longrightarrow> Reconfig ini pj s = (False, s))"
proof -
  have "config_failure (ini (m_parms s)) pj"
    if "section \<in> set (Sections (ini (m_parms s)))" "global_section section"
      "Get (ini (m_parms s)) section ''audience_json'' [] = text" "text \<noteq> []"
      "fst (pj text) \<noteq> []
        \<or> (\<forall>vals. snd (pj text) \<noteq> Json_array vals)
        \<or> (\<exists>vals val. snd (pj text) = Json_array vals \<and> val \<in> set vals \<and> json_string val = None)"
  proof -
    from that(4,5) have "audience_json_error pj text"
      by (auto simp: audience_json_error_def list_ex_iff split: json.splits)
    with that(1,2,3) show ?thesis
      by (auto simp: config_failure_def list_ex_iff)
  qed
  moreover have "ParseError (ini (m_parms s)) \<noteq> 0 \<longrightarrow> config_failure (ini (m_parms s)) pj"
    by (auto simp: config_failure_def)
  ultimately show ?thesis
    by (auto simp: Reconfig_spec)
qed

theorem Reconfig_is_atomic_witness:
  "ParseError (example_no_file (m_parms ((example_object None)\<lparr>m_audiences := [''old'']\<rparr>))) \<noteq> 0
   \<and> Reconfig example_no_file example_no_json ((example_object None)\<lparr>m_audiences := [''old'']\<rparr>)
       = (False, (example_object None)\<lparr>m_audiences := [''old'']\<rparr>)
   \<and> ''Global'' \<in> set (Sections (example_file [(''audience'', ''new''), (''audience_json'', ''[1,2]'')] []))
   \<and> global_section ''Global''
   \<and> Get (example_file [(''audience'', ''new''), (''audience_json'', ''[1,2]'')] []) ''Global''
        ''audience_json'' [] = ''[1,2]''
   \<and> snd (example_picojson ''[1,2]'') = Json_array [Json_number 1, Json_number 2]
   \<and> json_string (Json_number 1 :: int json) = None
   \<and> Reconfig (example_file [(''audience'', ''new''), (''audience_json'', ''[1,2]'')]) example_picojson
         ((example_object None)\<lparr>m_audiences := [''old'']\<rparr>)
       = (False, (example_object None)\<lparr>m_audiences := [''old'']\<rparr>)"
proof -
  let ?s = "(example_object None :: unit XrdAccSciTokens)\<lparr>m_audiences := [''old'']\<rparr>"
  let ?ini = "example_file [(''audience'', ''new''), (''audience_json'', ''[1,2]'')]"
  have parms: "m_parms ?s = []"
    by (simp add: example_object_eq)
  have h1: "ParseError (example_no_file (m_parms ?s)) \<noteq> 0"
    by (simp add: example_no_file_def)
  have h2: "''Global'' \<in> set (Sections (?ini [])) \<and> global_section ''Global''
      \<and> Get (?ini []) ''Global'' ''audience_json'' [] = ''[1,2]''"
    by (simp add: example_file_def global_section_Global)
  have h3: "snd (example_picojson ''[1,2]'') = Json_array [Json_number 1, Json_number 2]
      \<and> json_string (Json_number 1 :: int json) = None"
    by (simp add: example_picojson_def example_json_xy_def)
  from Reconfig_is_atomic [of example_no_file ?s example_no_json] h1
  have r1: "Reconfig example_no_file example_no_json ?s = (False, ?s)"
    by blast
  from Reconfig_is_atomic [of ?ini ?s example_picojson "''Global''" "''[1,2]''"] h2 h3 parms
  have r2: "Reconfig ?ini example_picojson ?s = (False, ?s)"
    by auto
  from h1 h2 h3 r1 r2 show ?thesis
    by simp
qed

text \<open>
  C8. The tokenizer of the \<open>audience\<close> value appends the fragments between commas and
  spaces, the empty ones discarded. A section is read when its name, in lower case,
  starts with \<open>global\<close>. When \<open>Reconfig\<close> succeeds the audience list is the
  concatenation, over the global sections in the order the reader yields them, of the
  tokens of \<open>audience\<close> followed by the strings of the \<open>audience_json\<close> array. The value
  \<open>alice, bob carol\<close> gives three audiences, the JSON array of the strings \<open>x\<close> and \<open>y\<close>
  gives two, and the JSON array of the numbers 1 and 2 makes \<open>Reconfig\<close> fail.
\<close>

theorem audiences_are_parsed_as_specified:
  "audience_loop audience 0 audiences = audiences @ spec_split audience
   \<and> (global_section section \<longleftrightarrow> prefix ''global'' (map tolower section))
   \<and> (fst (Reconfig ini pj s) \<longrightarrow>
        m_audiences (snd (Reconfig ini pj s)) =
          concat (map (section_audiences (ini (m_parms s)) pj)
            (filter global_section (Sections (ini (m_parms s))))))
   \<and> Reconfig (example_file [(''audience'', ''alice, bob carol'')]) example_picojson s
       = (True, s\<lparr>m_audiences := [''alice'', ''bob'', ''carol'']\<rparr>)
   \<and> Reconfig (example_file [(''audience_json'', example_json_xy)]) example_picojson s
       = (True, s\<lparr>m_audiences := [''x'', ''y'']\<rparr>)
   \<and> Reconfig (example_file [(''audience_json'', ''[1,2]'')]) example_picojson s = (False, s)"
proof -
  have split: "audience_loop audience 0 audiences = audiences @ spec_split audience"
    using audience_loop_spec [of 0 audience audiences] by simp
  have general: "fst (Reconfig ini pj s) \<longrightarrow>
        m_audiences (snd (Reconfig ini pj s)) =
          concat (map (section_audiences (ini (m_parms s)) pj)
            (filter global_section (Sections (ini (m_parms s)))))"
    by (simp add: Reconfig_spec)
  have e1: "Reconfig (example_file [(''audience'', ''alice, bob carol'')]) example_picojson s
       = (True, s\<lparr>m_audiences := [''alice'', ''bob'', ''carol'']\<rparr>)"
    by (simp add: Reconfig_spec config_failure_def example_file_def global_section_Global
        audience_json_error_def section_audiences_def audience_json_strings_def example_split)
  have e2: "Reconfig (example_file [(''audience_json'', example_json_xy)]) example_picojson s
       = (True, s\<lparr>m_audiences := [''x'', ''y'']\<rparr>)"
    by (simp add: Reconfig_spec config_failure_def example_file_def global_section_Global
        audience_json_error_def section_audiences_def audience_json_strings_def spec_split_Nil
        example_picojson_def example_json_xy_neq List.map_filter_simps)
  have e3: "Reconfig (example_file [(''audience_json'', ''[1,2]'')]) example_picojson s = (False, s)"
    by (simp add: Reconfig_spec config_failure_def example_file_def global_section_Global
        audience_json_error_def example_picojson_def example_json_xy_def)
  from split global_section_prefix general e1 e2 e3 show ?thesis
    by blast
qed

theorem audiences_are_parsed_as_specified_witness:
  "fst (Reconfig (example_file [(''audience'', ''alice, bob carol''), (''audience_json'', example_json_xy)])
          example_picojson (example_object None))
   \<and> m_audiences (snd (Reconfig
          (example_file [(''audience'', ''alice, bob carol''), (''audience_json'', example_json_xy)])
          example_picojson (example_object None)))
       = [''alice'', ''bob'', ''carol'', ''x'', ''y'']"
proof -
  let ?ini = "example_file [(''audience'', ''alice, bob carol''), (''audience_json'', example_json_xy)]"
  let ?s = "example_object None :: unit XrdAccSciTokens"
  have ok: "fst (Reconfig ?ini example_picojson ?s)"
    by (simp add: Reconfig_spec config_failure_def example_file_def global_section_Global
        audience_json_error_def example_picojson_def example_json_xy_neq)
  from audiences_are_parsed_as_specified [of _ _ _ ?ini example_picojson ?s] ok
  have "m_audiences (snd (Reconfig ?ini example_picojson ?s)) =
      concat (map (section_audiences (?ini (m_parms ?s)) example_picojson)
        (filter global_section (Sections (?ini (m_parms ?s)))))"
    by blast
  then have "m_audiences (snd (Reconfig ?ini example_picojson ?s)) = [''alice'', ''bob'', ''carol'', ''x'', ''y'']"
    by (simp add: example_file_def global_section_Global section_audiences_def audience_json_strings_def
        example_split example_picojson_def example_json_xy_neq List.map_filter_simps)
  with ok show ?thesis
    by simp
qed

end
